theory Spec2Isabelle
  imports Complex_Main "HOL-Library.Log_Nat" "HOL-Library.Sublist"
begin

section \<open>Python strings\<close>

text \<open>
  A Python \<open>str\<close> is a sequence of code points, and \<open>len\<close> counts code points. The
  characters of the model are the code points U+0000 to U+00FF (Latin-1), U+0130 (capital
  I with dot above) and U+0307 (combining dot above): U+0130 is the one code point that
  \<open>str.lower\<close> turns into two, and U+0307 is the second of the two. The character
  classes below are those of CPython's \<open>str.isspace\<close>, \<open>str.isalnum\<close> and \<open>str.lower\<close> on
  these code points.
\<close>

datatype pychar = Latin char | U0130 | U0307

type_synonym pystr = "pychar list"

text \<open>A string literal of Latin-1 characters.\<close>

definition str :: "string \<Rightarrow> pystr" where
  "str s = map Latin s"

definition code :: "char \<Rightarrow> nat" where
  "code c = of_char c"

text \<open>\<open>str.isspace\<close> for one character: the characters \<open>str.strip()\<close> removes.\<close>

fun is_space :: "pychar \<Rightarrow> bool" where
  "is_space (Latin c) = (let n = code c in
     (9 \<le> n \<and> n \<le> 13) \<or> (28 \<le> n \<and> n \<le> 32) \<or> n = 133 \<or> n = 160)"
| "is_space U0130 = False"
| "is_space U0307 = False"

text \<open>\<open>str.isalnum\<close> for one character.\<close>

fun is_alnum :: "pychar \<Rightarrow> bool" where
  "is_alnum (Latin c) = (let n = code c in
     (48 \<le> n \<and> n \<le> 57) \<or> (65 \<le> n \<and> n \<le> 90) \<or> (97 \<le> n \<and> n \<le> 122) \<or>
     n = 170 \<or> n = 178 \<or> n = 179 \<or> n = 181 \<or> n = 185 \<or> n = 186 \<or>
     (188 \<le> n \<and> n \<le> 190) \<or> (192 \<le> n \<and> n \<le> 214) \<or> (216 \<le> n \<and> n \<le> 246) \<or>
     (248 \<le> n \<and> n \<le> 255))"
| "is_alnum U0130 = True"
| "is_alnum U0307 = False"

text \<open>
  \<open>str.lower\<close> for one character: A-Z and the upper-case letters of Latin-1 go to their
  lower-case letters, U+0130 goes to \<open>i\<close> followed by U+0307, every other character
  stays.
\<close>

fun lower_char :: "pychar \<Rightarrow> pystr" where
  "lower_char (Latin c) = (let n = code c in
     if (65 \<le> n \<and> n \<le> 90) \<or> (192 \<le> n \<and> n \<le> 214) \<or> (216 \<le> n \<and> n \<le> 222)
     then [Latin (char_of (n + 32))] else [Latin c])"
| "lower_char U0130 = [Latin (CHR ''i''), U0307]"
| "lower_char U0307 = [U0307]"

definition lower :: "pystr \<Rightarrow> pystr" where
  "lower s = concat (map lower_char s)"

definition lstrip :: "pystr \<Rightarrow> pystr" where
  "lstrip s = dropWhile is_space s"

definition rstrip :: "pystr \<Rightarrow> pystr" where
  "rstrip s = rev (dropWhile is_space (rev s))"

definition strip :: "pystr \<Rightarrow> pystr" where
  "strip s = rstrip (lstrip s)"

text \<open>\<open>s.startswith(sub)\<close>.\<close>

fun starts_with :: "pystr \<Rightarrow> pystr \<Rightarrow> bool" where
  "starts_with s [] = True"
| "starts_with [] (x # xs) = False"
| "starts_with (c # cs) (x # xs) = (c = x \<and> starts_with cs xs)"

text \<open>\<open>sub in s\<close>: \<open>sub\<close> occurs in \<open>s\<close> as a contiguous substring.\<close>

fun contains :: "pystr \<Rightarrow> pystr \<Rightarrow> bool" where
  "contains [] sub = (sub = [])"
| "contains (c # cs) sub = (starts_with (c # cs) sub \<or> contains cs sub)"

text \<open>
  \<open>s.count(sub)\<close>: the number of non-overlapping occurrences, scanning from the left;
  for the empty \<open>sub\<close> CPython returns \<open>len(s) + 1\<close>.
\<close>

function str_count :: "pystr \<Rightarrow> pystr \<Rightarrow> nat" where
  "str_count s sub =
     (if sub = [] then length s + 1
      else if s = [] then 0
      else if starts_with s sub then 1 + str_count (drop (length sub) s) sub
      else str_count (tl s) sub)"
  by pat_completeness auto
termination
  by (relation "measure (\<lambda>(s, sub). length s)") auto

declare str_count.simps [simp del]

text \<open>\<open>sep.join(parts)\<close>.\<close>

fun join :: "pystr \<Rightarrow> pystr list \<Rightarrow> pystr" where
  "join sep [] = []"
| "join sep [p] = p"
| "join sep (p # q # ps) = p @ sep @ join sep (q # ps)"

section \<open>The two regular expressions\<close>

text \<open>\<open>\w\<close> of a Unicode pattern: alphanumeric or the underscore.\<close>

definition is_word_char :: "pychar \<Rightarrow> bool" where
  "is_word_char c = (is_alnum c \<or> c = Latin (CHR ''_''))"

text \<open>The class \<open>[\w'-]\<close>.\<close>

definition in_word_class :: "pychar \<Rightarrow> bool" where
  "in_word_class c = (is_word_char c \<or> c = Latin (CHR 0x27) \<or> c = Latin (CHR ''-''))"

text \<open>
  \<open>\b\<close> between the character before a position and the character at it (\<open>None\<close> at
  either end of the string): exactly one of the two is a word character.
\<close>

definition word_boundary :: "pychar option \<Rightarrow> pychar option \<Rightarrow> bool" where
  "word_boundary p n =
     ((case p of None \<Rightarrow> False | Some c \<Rightarrow> is_word_char c) \<noteq>
      (case n of None \<Rightarrow> False | Some c \<Rightarrow> is_word_char c))"

definition char_at :: "pystr \<Rightarrow> nat \<Rightarrow> pychar option" where
  "char_at s i = (if i < length s then Some (s ! i) else None)"

text \<open>
  The greedy \<open>[\w'-]+\<close> followed by \<open>\b\<close>: starting from the longest run of class
  characters, the engine gives characters back one at a time until the position after
  the match is a word boundary; a match keeps at least one character.
  \<open>backtrack s k\<close> tries the lengths \<open>k, k - 1, ..., 1\<close>.
\<close>

fun backtrack :: "pystr \<Rightarrow> nat \<Rightarrow> nat option" where
  "backtrack s 0 = None"
| "backtrack s (Suc k) =
     (if word_boundary (char_at s k) (char_at s (Suc k)) then Some (Suc k)
      else backtrack s k)"

text \<open>The length of the match of \<open>\b[\w'-]+\b\<close> at the start of \<open>s\<close>, after \<open>prev\<close>.\<close>

definition match_word :: "pychar option \<Rightarrow> pystr \<Rightarrow> nat option" where
  "match_word prev s =
     (if word_boundary prev (char_at s 0)
      then backtrack s (length (takeWhile in_word_class s))
      else None)"

lemma backtrack_bounds: "backtrack s n = Some k \<Longrightarrow> 0 < k \<and> k \<le> n"
  by (induction n) (auto split: if_splits)

lemma match_word_bounds: "match_word prev s = Some k \<Longrightarrow> 0 < k \<and> k \<le> length s"
proof -
  assume m: "match_word prev s = Some k"
  then have "backtrack s (length (takeWhile in_word_class s)) = Some k"
    by (simp add: match_word_def split: if_splits)
  then have "0 < k \<and> k \<le> length (takeWhile in_word_class s)"
    by (rule backtrack_bounds)
  moreover have "length (takeWhile in_word_class s) \<le> length s"
    by (rule length_takeWhile_le)
  ultimately show ?thesis by simp
qed

text \<open>
  \<open>re.findall(r'\b[\w\'-]+\b', s)\<close>: scan from the left; where the pattern matches, take
  the match and go on after it, otherwise move one character on. \<open>prev\<close> is the
  character before the current position.
\<close>

function findall_words :: "pychar option \<Rightarrow> pystr \<Rightarrow> pystr list" where
  "findall_words prev s =
     (if s = [] then []
      else case match_word prev s of
        Some k \<Rightarrow> take k s # findall_words (char_at s (k - 1)) (drop k s)
      | None \<Rightarrow> findall_words (Some (hd s)) (tl s))"
  by pat_completeness auto
termination
proof (relation "measure (\<lambda>(prev, s). length s)")
  show "wf (measure (\<lambda>(prev, s). length s))" by simp
next
  fix prev :: "pychar option" and s :: pystr and k :: nat
  assume "s \<noteq> []" and "match_word prev s = Some k"
  then have "0 < k \<and> k \<le> length s" by (simp add: match_word_bounds)
  then show "((char_at s (k - 1), drop k s), (prev, s)) \<in> measure (\<lambda>(prev, s). length s)"
    by auto
next
  fix prev :: "pychar option" and s :: pystr
  assume "s \<noteq> []"
  then show "((Some (hd s), tl s), (prev, s)) \<in> measure (\<lambda>(prev, s). length s)"
    by simp
qed

declare findall_words.simps [simp del]

text \<open>The class \<open>[.!?]\<close>.\<close>

definition is_terminator :: "pychar \<Rightarrow> bool" where
  "is_terminator c = (c = Latin (CHR ''.'') \<or> c = Latin (CHR ''!'') \<or> c = Latin (CHR ''?''))"

text \<open>
  \<open>re.findall(r'[.!?]+', s)\<close>: at a terminator the greedy \<open>+\<close> takes the whole run and
  the scan goes on after it; elsewhere it moves one character on.
\<close>

function findall_terminators :: "pystr \<Rightarrow> pystr list" where
  "findall_terminators s =
     (if s = [] then []
      else if is_terminator (hd s)
        then takeWhile is_terminator s # findall_terminators (dropWhile is_terminator s)
      else findall_terminators (tl s))"
  by pat_completeness auto
termination
proof (relation "measure length")
  show "wf (measure length)" by simp
next
  fix s :: pystr
  assume "s \<noteq> []" and "is_terminator (hd s)"
  then obtain c cs where "s = c # cs" and "is_terminator c" by (cases s) auto
  then have "length (dropWhile is_terminator s) \<le> length cs"
    by (simp add: length_dropWhile_le)
  with \<open>s = c # cs\<close> show "(dropWhile is_terminator s, s) \<in> measure length" by simp
next
  fix s :: pystr
  assume "s \<noteq> []"
  then show "(tl s, s) \<in> measure length" by simp
qed

declare findall_terminators.simps [simp del]

section \<open>Numbers\<close>

text \<open>
  Exceptions are values: a computation that can raise returns \<open>exn + 'a\<close>, with \<open>Inl\<close>
  for the exception raised.
\<close>

datatype exn = ZeroDivisionError | AttributeError | KeyError pystr | WebDriverException pystr

text \<open>
  A Python \<open>float\<close> is an IEEE 754 binary64 number; the model keeps its exact value as a
  rational. \<open>round_double\<close> rounds a rational to the nearest number with a 53-bit
  significand, ties to the even significand. The results of this program lie far inside
  the exponent range of binary64 (a count divided by a count, times 100), so overflow and
  subnormal numbers are left out.
\<close>

definition round_half_even :: "rat \<Rightarrow> int" where
  "round_half_even x =
     (let f = \<lfloor>x\<rfloor>; r = x - of_int f
      in if r < 1 / 2 then f
         else if 1 / 2 < r then f + 1
         else if even f then f else f + 1)"

text \<open>The exponent \<open>e\<close> with \<open>2^e \<le> x < 2^(e+1)\<close>, for \<open>x > 0\<close>.\<close>

definition ilog2 :: "rat \<Rightarrow> int" where
  "ilog2 x =
     (let (p, q) = quotient_of x; d = bitlen p - bitlen q
      in if 2 powi d \<le> x then d else d - 1)"

definition round_double :: "rat \<Rightarrow> rat" where
  "round_double x =
     (if x = 0 then 0
      else let ulp = 2 powi (ilog2 \<bar>x\<bar> - 52)
           in of_int (round_half_even (x / ulp)) * ulp)"

text \<open>
  \<open>a / b\<close> on two \<open>int\<close>s: the correctly rounded quotient, or \<open>ZeroDivisionError\<close>. Both
  operands are counts here, so they are naturals.
\<close>

definition true_div :: "nat \<Rightarrow> nat \<Rightarrow> exn + rat" where
  "true_div a b =
     (if b = 0 then Inl ZeroDivisionError
      else Inr (round_double (of_nat a / of_nat b)))"

text \<open>\<open>x * y\<close> on a \<open>float\<close> and a number that converts to \<open>float\<close> exactly.\<close>

definition float_mul :: "rat \<Rightarrow> rat \<Rightarrow> rat" where
  "float_mul x y = round_double (x * y)"

text \<open>The decimal digit for the last digit of \<open>d\<close>.\<close>

definition digit :: "int \<Rightarrow> pychar" where
  "digit d = str ''0123456789'' ! nat (d mod 10)"

text \<open>The decimal digits of an integer that is not negative.\<close>

function decimal :: "int \<Rightarrow> pystr" where
  "decimal n = (if n < 10 then [digit n] else decimal (n div 10) @ [digit n])"
  by pat_completeness auto
termination
  by (relation "measure nat") auto

declare decimal.simps [simp del]

text \<open>
  \<open>f"{x:.2f}"\<close>: the exact value of \<open>x\<close> rounded to two decimals, ties to even, as
  CPython's correctly rounded conversion does; an \<open>int\<close> is converted to \<open>float\<close> first.
\<close>

definition format_2f :: "rat \<Rightarrow> pystr" where
  "format_2f x =
     (let n = round_half_even (\<bar>x\<bar> * 100)
      in (if x < 0 then str ''-'' else []) @ decimal (n div 100) @ str ''.'' @
         [digit (n div 10), digit n])"

section \<open>The text analyzer\<close>

text \<open>One row of the keyword table: the dictionary appended to \<open>results\<close>.\<close>

record keyword_record =
  Keyword :: pystr
  Instances :: nat
  Density :: pystr

text \<open>
  Line 78: \<open>density = (instances / word_count * 100) if word_count > 0 else 0\<close>.
\<close>

definition density_of :: "nat \<Rightarrow> nat \<Rightarrow> exn + rat" where
  "density_of instances word_count =
     (if word_count > 0 then
        (case true_div instances word_count of
           Inl e \<Rightarrow> Inl e
         | Inr q \<Rightarrow> Inr (float_mul q 100))
      else Inr 0)"

text \<open>
  The loop \<open>for keyword in keywords\<close> of \<open>analyze_content\<close>, with the list \<open>results\<close> it
  appends to.
\<close>

fun keyword_loop ::
  "pystr \<Rightarrow> nat \<Rightarrow> pystr list \<Rightarrow> keyword_record list \<Rightarrow> exn + keyword_record list"
where
  "keyword_loop content word_count [] results = Inr results"
| "keyword_loop content word_count (keyword # rest) results =
     (let kw = lower (strip keyword);
          instances = str_count (lower content) kw
      in case density_of instances word_count of
           Inl e \<Rightarrow> Inl e
         | Inr density \<Rightarrow>
             keyword_loop content word_count rest
               (results @ [\<lparr>Keyword = keyword, Instances = instances,
                             Density = format_2f density @ str ''%''\<rparr>]))"

text \<open>\<open>analyze_content(content, keywords)\<close>, returning the triple or the exception.\<close>

definition analyze_content ::
  "pystr \<Rightarrow> pystr list \<Rightarrow> exn + (nat \<times> nat \<times> keyword_record list)"
where
  "analyze_content content keywords =
     (if content = [] then Inr (0, 0, [])
      else
        let words = findall_words None content;
            word_count = length words;
            sentence_count = length (findall_terminators content)
        in case keyword_loop content word_count keywords [] of
             Inl e \<Rightarrow> Inl e
           | Inr results \<Rightarrow> Inr (word_count, sentence_count, results))"

subsection \<open>Executions of the analyzer on a heap\<close>

text \<open>
  A Python list is an object: the caller and the function share it, and \<open>append\<close>
  changes it in place. In this reading of \<open>analyze_content\<close> the lists the function is
  given or returns live in a heap, a map from addresses to the elements of the list
  object there. An element is a string (in \<open>keywords\<close>) or a dictionary (a row, in
  \<open>results\<close>). Strings, numbers and tuples cannot be changed and stay values.
\<close>

datatype pyval = Str pystr | Row keyword_record

type_synonym heap = "nat \<Rightarrow> pyval list option"

text \<open>
  The loop of lines 73-83, from the state of its iterator: \<open>k\<close> is the address of
  \<open>keywords\<close>, \<open>r\<close> that of \<open>results\<close>, \<open>i\<close> the index the iterator has reached. Each
  round reads the list at \<open>k\<close> as it is then, and \<open>results.append\<close> rewrites the list at
  \<open>r\<close>. The loop ends with the heap it leaves and the exception raised, if any; an
  element without a \<open>strip\<close> method raises \<open>AttributeError\<close>.
\<close>

inductive exec_loop ::
  "pystr \<Rightarrow> nat \<Rightarrow> nat \<Rightarrow> nat \<Rightarrow> nat \<Rightarrow> heap \<Rightarrow> heap \<Rightarrow> exn option \<Rightarrow> bool"
  for content :: pystr and word_count :: nat and k :: nat and r :: nat
where
  loop_end:
    "h k = Some ks \<Longrightarrow> length ks \<le> i \<Longrightarrow>
     exec_loop content word_count k r i h h None"
| loop_no_strip:
    "h k = Some ks \<Longrightarrow> i < length ks \<Longrightarrow> ks ! i = Row d \<Longrightarrow>
     exec_loop content word_count k r i h h (Some AttributeError)"
| loop_raise:
    "h k = Some ks \<Longrightarrow> i < length ks \<Longrightarrow> ks ! i = Str keyword \<Longrightarrow>
     density_of (str_count (lower content) (lower (strip keyword))) word_count = Inl e \<Longrightarrow>
     exec_loop content word_count k r i h h (Some e)"
| loop_next:
    "h k = Some ks \<Longrightarrow> i < length ks \<Longrightarrow> ks ! i = Str keyword \<Longrightarrow>
     instances = str_count (lower content) (lower (strip keyword)) \<Longrightarrow>
     density_of instances word_count = Inr density \<Longrightarrow>
     h r = Some rs \<Longrightarrow>
     exec_loop content word_count k r (Suc i)
       (h(r \<mapsto> rs @ [Row \<lparr>Keyword = keyword, Instances = instances,
                                Density = format_2f density @ str ''%''\<rparr>]))
       h' raised \<Longrightarrow>
     exec_loop content word_count k r i h h' raised"

text \<open>
  A call \<open>analyze_content(content, keywords)\<close> with \<open>keywords\<close> at address \<open>k\<close>, from
  heap \<open>h\<close> to heap \<open>h'\<close>. The empty list of line 65 or line 72 is a new object; \<open>r\<close> is
  the address the allocator gives it, any address not in use. The call raises, or
  returns the two counts and the address of the list of rows.
\<close>

inductive exec_analyze ::
  "pystr \<Rightarrow> nat \<Rightarrow> nat \<Rightarrow> heap \<Rightarrow> heap \<Rightarrow> exn + nat \<times> nat \<times> nat \<Rightarrow> bool"
where
  exec_empty:
    "content = [] \<Longrightarrow> h r = None \<Longrightarrow>
     exec_analyze content k r h (h(r \<mapsto> [])) (Inr (0, 0, r))"
| exec_raise:
    "content \<noteq> [] \<Longrightarrow> h r = None \<Longrightarrow>
     exec_loop content (length (findall_words None content)) k r 0 (h(r \<mapsto> [])) h' (Some e) \<Longrightarrow>
     exec_analyze content k r h h' (Inl e)"
| exec_return:
    "content \<noteq> [] \<Longrightarrow> h r = None \<Longrightarrow>
     exec_loop content (length (findall_words None content)) k r 0 (h(r \<mapsto> [])) h' None \<Longrightarrow>
     exec_analyze content k r h h'
       (Inr (length (findall_words None content), length (findall_terminators content), r))"

code_pred (modes: i \<Rightarrow> i \<Rightarrow> i \<Rightarrow> i \<Rightarrow> i \<Rightarrow> i \<Rightarrow> o \<Rightarrow> o \<Rightarrow> bool) exec_loop .

code_pred (modes: i \<Rightarrow> i \<Rightarrow> i \<Rightarrow> i \<Rightarrow> o \<Rightarrow> o \<Rightarrow> bool) exec_analyze .

section \<open>The parsed page\<close>

text \<open>
  The tree \<open>BeautifulSoup(page_source, 'html.parser')\<close> builds. A \<open>NavigableString\<close> is a
  piece of text; a \<open>Tag\<close> has a name, its attribute dictionary and its contents. The
  parser splits the value of \<open>class\<close> at whitespace into a list of tokens; every other
  attribute of interest here keeps its value as one string.
\<close>

datatype attr_value = AttrStr pystr | AttrList "pystr list"

type_synonym attrs = "(pystr \<times> attr_value) list"

datatype node = NavigableString pystr | Tag pystr attrs "node list"

text \<open>\<open>tag.get(key)\<close>, \<open>tag.has_attr(key)\<close> and \<open>tag[key]\<close>.\<close>

definition get_attr :: "attrs \<Rightarrow> pystr \<Rightarrow> attr_value option" where
  "get_attr a key = map_of a key"

definition has_attr :: "attrs \<Rightarrow> pystr \<Rightarrow> bool" where
  "has_attr a key = (map_of a key \<noteq> None)"

definition get_item :: "attrs \<Rightarrow> pystr \<Rightarrow> exn + attr_value" where
  "get_item a key = (case map_of a key of None \<Rightarrow> Inl (KeyError key) | Some v \<Rightarrow> Inr v)"

text \<open>\<open>x in v\<close> for an attribute value: a substring of a string, a member of a list.\<close>

fun value_contains :: "attr_value \<Rightarrow> pystr \<Rightarrow> bool" where
  "value_contains (AttrStr v) x = contains v x"
| "value_contains (AttrList vs) x = (x \<in> set vs)"

text \<open>
  Line 42: the names given to \<open>soup(...)\<close>, that is \<open>soup.find_all(...)\<close>. A list of strings
  selects the tags whose name is one of them.
\<close>

definition excluded_names :: "pystr list" where
  "excluded_names =
     map str
       [''nav'', ''header'', ''footer'', ''aside'', ''script'', ''style'', ''form'', ''button'',
        ''div.footer'', ''div.navbar'']"

fun name_in :: "pystr list \<Rightarrow> node \<Rightarrow> bool" where
  "name_in names (NavigableString s) = False"
| "name_in names (Tag n a cs) = (n \<in> set names)"

text \<open>
  Lines 42-43: every tag \<open>find_all\<close> selected is decomposed, which takes it and all it
  contains out of the tree. What is left is the tree without the selected tags.
\<close>

fun decompose_in :: "pystr list \<Rightarrow> node \<Rightarrow> node"
and decompose_all :: "pystr list \<Rightarrow> node list \<Rightarrow> node list" where
  "decompose_in names (NavigableString s) = NavigableString s"
| "decompose_in names (Tag n a cs) = Tag n a (decompose_all names cs)"
| "decompose_all names [] = []"
| "decompose_all names (c # cs) =
     (if name_in names c then decompose_all names cs
      else decompose_in names c # decompose_all names cs)"

text \<open>
  \<open>find\<close>: the first tag below the root, in document order (a tag before its contents,
  its contents before its next sibling), that the test accepts.
\<close>

fun find_tag :: "(pystr \<Rightarrow> attrs \<Rightarrow> bool) \<Rightarrow> node list \<Rightarrow> node option" where
  "find_tag p [] = None"
| "find_tag p (NavigableString s # rest) = find_tag p rest"
| "find_tag p (Tag n a cs # rest) =
     (if p n a then Some (Tag n a cs)
      else case find_tag p cs of
        Some t \<Rightarrow> Some t
      | None \<Rightarrow> find_tag p rest)"

text \<open>
  How a search matches an attribute against a function: a missing attribute is passed
  as \<open>None\<close>; of a token list each token is tried, and then the tokens joined by spaces.
\<close>

fun matches :: "attr_value option \<Rightarrow> (pystr option \<Rightarrow> bool) \<Rightarrow> bool" where
  "matches None f = f None"
| "matches (Some (AttrStr v)) f = f (Some v)"
| "matches (Some (AttrList vs)) f = (list_ex (\<lambda>v. f (Some v)) vs \<or> f (Some (join (str '' '') vs)))"

text \<open>
  Line 46: \<open>lambda x: x and ('content' in x.lower() or 'main' in x.lower() or
  'article' in x.lower())\<close>, as a truth value.
\<close>

fun class_test :: "pystr option \<Rightarrow> bool" where
  "class_test None = False"
| "class_test (Some x) =
     (x \<noteq> [] \<and>
      (contains (lower x) (str ''content'') \<or> contains (lower x) (str ''main'') \<or>
       contains (lower x) (str ''article'')))"

text \<open>
  Line 46: \<open>soup.find('main') or soup.find('article') or soup.find('div', class_=...)\<close>.
  A tag is true whatever it contains, so \<open>or\<close> goes on exactly when \<open>find\<close> returned
  \<open>None\<close>.
\<close>

definition select_root :: "node list \<Rightarrow> node option" where
  "select_root soup =
     (case find_tag (\<lambda>n a. n = str ''main'') soup of
        Some t \<Rightarrow> Some t
      | None \<Rightarrow>
          (case find_tag (\<lambda>n a. n = str ''article'') soup of
             Some t \<Rightarrow> Some t
           | None \<Rightarrow>
               find_tag (\<lambda>n a. n = str ''div'' \<and> matches (get_attr a (str ''class'')) class_test) soup))"

text \<open>
  \<open>find_all(text=True)\<close> below a tag: every string in document order, each with the name
  and the attributes of its parent.
\<close>

fun find_all_text :: "pystr \<Rightarrow> attrs \<Rightarrow> node list \<Rightarrow> (pystr \<times> attrs \<times> pystr) list" where
  "find_all_text pn pa [] = []"
| "find_all_text pn pa (NavigableString s # rest) = (pn, pa, s) # find_all_text pn pa rest"
| "find_all_text pn pa (Tag n a cs # rest) = find_all_text n a cs @ find_all_text pn pa rest"

text \<open>Lines 51-54: the loop over the strings, with the list \<open>content\<close> it appends to.\<close>

fun collect_visible :: "(pystr \<times> attrs \<times> pystr) list \<Rightarrow> pystr list \<Rightarrow> exn + pystr list" where
  "collect_visible [] content = Inr content"
| "collect_visible ((pn, pa, s) # rest) content =
     (if pn \<notin> set [str ''script'', str ''style''] then
        if \<not> has_attr pa (str ''style'') then collect_visible rest (content @ [strip s])
        else
          (case get_item pa (str ''style'') of
             Inl e \<Rightarrow> Inl e
           | Inr st \<Rightarrow>
               if \<not> value_contains st (str ''display: none'') \<and>
                  \<not> value_contains st (str ''visibility: hidden'')
               then collect_visible rest (content @ [strip s])
               else collect_visible rest content)
      else collect_visible rest content)"

text \<open>Lines 42-56: what \<open>get_clean_content\<close> does with the parsed page.\<close>

definition extract_content :: "node list \<Rightarrow> exn + pystr" where
  "extract_content soup =
     (case select_root (decompose_all excluded_names soup) of
        Some (Tag n a cs) \<Rightarrow>
          (case collect_visible (find_all_text n a cs) [] of
             Inl e \<Rightarrow> Inl e
           | Inr content \<Rightarrow> Inr (join (str '' '') (filter (\<lambda>text. text \<noteq> []) content)))
      | _ \<Rightarrow> Inr [])"

text \<open>
  \<open>get_clean_content(url)\<close>. Lines 24-39 drive the browser and parse the page it
  rendered: the model takes their outcome, the exception they raised or the parsed
  tree. The handler of lines 57-59 turns every exception of the body into the empty
  string (its message to the user interface is not modelled).
\<close>

definition get_clean_content :: "exn + node list \<Rightarrow> exn + pystr" where
  "get_clean_content page =
     (case (case page of Inl e \<Rightarrow> Inl e | Inr soup \<Rightarrow> extract_content soup) of
        Inl e \<Rightarrow> Inr []
      | Inr content \<Rightarrow> Inr content)"


section \<open>Specification vocabulary\<close>

subsection \<open>Maximal runs of sentence terminators\<close>

text \<open>
  The positions \<open>i..<j\<close> of \<open>s\<close> are a maximal run of terminators: one character or
  more, all of them from \<open>.!?\<close>, with no terminator just before and none just after.
\<close>

definition maximal_run :: "pystr \<Rightarrow> nat \<Rightarrow> nat \<Rightarrow> bool" where
  "maximal_run s i j =
     (i < j \<and> j \<le> length s \<and>
      (\<forall>k \<in> {i..<j}. is_terminator (s ! k)) \<and>
      (i = 0 \<or> \<not> is_terminator (s ! (i - 1))) \<and>
      (j = length s \<or> \<not> is_terminator (s ! j)))"

text \<open>All maximal runs of \<open>s\<close>, found by trying every pair of positions.\<close>

definition maximal_runs :: "pystr \<Rightarrow> (nat \<times> nat) list" where
  "maximal_runs s =
     filter (\<lambda>(i, j). maximal_run s i j) (List.product [0..<length s] [0..<Suc (length s)])"

subsection \<open>Document order and the content root\<close>

text \<open>Every tag below the root, in document order.\<close>

fun tags_of :: "node list \<Rightarrow> node list" where
  "tags_of [] = []"
| "tags_of (NavigableString s # rest) = tags_of rest"
| "tags_of (Tag n a cs # rest) = Tag n a cs # tags_of cs @ tags_of rest"

text \<open>A tag with the given name.\<close>

fun tag_named :: "pystr \<Rightarrow> node \<Rightarrow> bool" where
  "tag_named x (NavigableString s) = False"
| "tag_named x (Tag n a cs) = (n = x)"

text \<open>
  The value of an attribute as one string; the tokens of a token list are separated by
  single spaces.
\<close>

fun attr_text :: "attr_value \<Rightarrow> pystr" where
  "attr_text (AttrStr v) = v"
| "attr_text (AttrList vs) = join (str '' '') vs"

text \<open>
  The \<open>class\<close> attribute contains \<open>w\<close> when upper and lower case are not told apart
  (\<open>w\<close> is in lower case).
\<close>

definition class_contains_ci :: "attrs \<Rightarrow> pystr \<Rightarrow> bool" where
  "class_contains_ci a w =
     (case get_attr a (str ''class'') of
        None \<Rightarrow> False
      | Some v \<Rightarrow> sublist w (lower (attr_text v)))"

text \<open>A \<open>div\<close> whose class attribute contains \<open>content\<close>, \<open>main\<close> or \<open>article\<close>.\<close>

fun content_div :: "node \<Rightarrow> bool" where
  "content_div (NavigableString s) = False"
| "content_div (Tag n a cs) =
     (n = str ''div'' \<and>
      (class_contains_ci a (str ''content'') \<or> class_contains_ci a (str ''main'') \<or>
       class_contains_ci a (str ''article'')))"

text \<open>
  The content root by priority: the first \<open>main\<close>; failing that the first \<open>article\<close>;
  failing that the first such \<open>div\<close>; failing that none.
\<close>

definition content_root :: "node list \<Rightarrow> node option" where
  "content_root doc =
     (case List.find (tag_named (str ''main'')) (tags_of doc) of
        Some m \<Rightarrow> Some m
      | None \<Rightarrow>
          (case List.find (tag_named (str ''article'')) (tags_of doc) of
             Some a \<Rightarrow> Some a
           | None \<Rightarrow> List.find content_div (tags_of doc)))"

text \<open>The test of a search, applied to a node: a string is no tag.\<close>

fun accepts :: "(pystr \<Rightarrow> attrs \<Rightarrow> bool) \<Rightarrow> node \<Rightarrow> bool" where
  "accepts p (NavigableString s) = False"
| "accepts p (Tag n a cs) = p n a"

section \<open>Properties of the text analyzer\<close>

subsection \<open>The guarded division and the keyword loop\<close>

lemma density_of_total:
  "density_of i w = Inr (if 0 < w then float_mul (round_double (of_nat i / of_nat w)) 100 else 0)"
  by (simp add: density_of_def true_div_def)

lemma keyword_loop_keywords:
  "\<exists>rs. keyword_loop content wc kws results = Inr rs \<and>
        map Keyword rs = map Keyword results @ kws"
proof (induction kws arbitrary: results)
  case Nil
  show ?case by simp
next
  case (Cons k kws)
  define n where "n = str_count (lower content) (lower (strip k))"
  obtain d where d: "density_of n wc = Inr d"
    by (simp add: density_of_total)
  define r where "r = \<lparr>Keyword = k, Instances = n, Density = format_2f d @ str ''%''\<rparr>"
  obtain rs where rs: "keyword_loop content wc kws (results @ [r]) = Inr rs"
    and m: "map Keyword rs = map Keyword (results @ [r]) @ kws"
    using Cons.IH [of "results @ [r]"] by blast
  have "keyword_loop content wc (k # kws) results = Inr rs"
    using rs d by (simp add: n_def r_def)
  moreover have "map Keyword rs = map Keyword results @ k # kws"
    using m by (simp add: r_def)
  ultimately show ?case by blast
qed

subsection \<open>Rounding\<close>

text \<open>
  Rounding to the nearest integer moves a number by at most one half; rounding to a
  double moves a positive number by at most the fraction \<open>2^-53\<close> of itself.
\<close>

lemma round_half_even_error: "\<bar>of_int (round_half_even x) - x\<bar> \<le> 1 / 2"
proof -
  have "of_int \<lfloor>x\<rfloor> \<le> x" "x < of_int \<lfloor>x\<rfloor> + 1" by linarith+
  then show ?thesis
    by (auto simp: round_half_even_def Let_def)
qed

lemma round_half_even_nonneg: "0 \<le> x \<Longrightarrow> 0 \<le> round_half_even x"
  by (auto simp: round_half_even_def Let_def intro: add_nonneg_nonneg)

lemma ilog2_le:
  assumes "0 < x"
  shows "2 powi (ilog2 x) \<le> x"
proof -
  obtain p q where pq: "quotient_of x = (p, q)" by (cases "quotient_of x")
  have q: "0 < q" using pq by (rule quotient_of_denom_pos)
  have x: "x = of_int p / of_int q" using pq by (rule quotient_of_div)
  have p: "0 < p" using assms q unfolding x by (simp add: zero_less_divide_iff)
  define d where "d = bitlen p - bitlen q"
  show ?thesis
  proof (cases "2 powi d \<le> x")
    case True
    then show ?thesis by (simp add: ilog2_def pq d_def)
  next
    case False
    have bp: "1 \<le> bitlen p" using p by (simp add: bitlen_alt_def)
    have "2 ^ nat (bitlen p - 1) \<le> p" using bitlen_bounds [OF p] by simp
    then have "(of_int (2 ^ nat (bitlen p - 1)) :: rat) \<le> of_int p" by (simp only: of_int_le_iff)
    then have lp: "(2::rat) powi (bitlen p - 1) \<le> of_int p"
      using bp by (simp add: power_int_def)
    have "q < 2 ^ nat (bitlen q)" using bitlen_bounds [OF q] by simp
    then have "(of_int q :: rat) < of_int (2 ^ nat (bitlen q))" by (simp only: of_int_less_iff)
    then have lq: "of_int q \<le> (2::rat) powi (bitlen q)"
      using bitlen_nonneg [of q] by (simp add: power_int_def)
    have "(2::rat) powi (d - 1) = 2 powi (bitlen p - 1) / 2 powi (bitlen q)"
      unfolding d_def by (subst power_int_diff [symmetric]) (simp_all add: algebra_simps)
    also have "\<dots> \<le> of_int p / of_int q"
      using lp lq q p by (intro frac_le) simp_all
    finally have "2 powi (d - 1) \<le> x" by (simp add: x)
    with False show ?thesis by (simp add: ilog2_def pq d_def)
  qed
qed

lemma round_double_nonneg: "0 \<le> x \<Longrightarrow> 0 \<le> round_double x"
  by (auto simp: round_double_def Let_def intro!: mult_nonneg_nonneg round_half_even_nonneg divide_nonneg_nonneg)

lemma round_double_error:
  assumes "0 < x"
  shows "\<bar>round_double x - x\<bar> \<le> x / 2 ^ 53"
proof -
  define u where "u = (2::rat) powi (ilog2 x - 52)"
  have u: "0 < u" by (simp add: u_def)
  have "u = 2 powi (ilog2 x) / 2 ^ 52"
    unfolding u_def by (subst power_int_diff) simp_all
  also have "\<dots> \<le> x / 2 ^ 52" using ilog2_le [OF assms] by (simp add: divide_right_mono)
  finally have ux: "u \<le> x / 2 ^ 52" .
  have rd: "round_double x = of_int (round_half_even (x / u)) * u"
    using assms by (simp add: round_double_def u_def Let_def)
  have "round_double x - x = (of_int (round_half_even (x / u)) - x / u) * u"
    using u by (simp add: rd algebra_simps)
  then have "\<bar>round_double x - x\<bar> = \<bar>of_int (round_half_even (x / u)) - x / u\<bar> * u"
    using u by (simp add: abs_mult)
  also have "\<dots> \<le> (1 / 2) * u"
    using round_half_even_error [of "x / u"] u by (intro mult_right_mono) simp_all
  also have "\<dots> \<le> (1 / 2) * (x / 2 ^ 52)" using ux by simp
  also have "\<dots> = x / 2 ^ 53" by simp
  finally show ?thesis .
qed

lemma float_mul_nonneg: "0 \<le> x \<Longrightarrow> 0 \<le> y \<Longrightarrow> 0 \<le> float_mul x y"
  by (simp add: float_mul_def round_double_nonneg)

lemma round_double_zero: "round_double 0 = 0"
  by (simp add: round_double_def)

lemma density_error:
  assumes "0 \<le> x"
  shows "\<bar>float_mul (round_double x) 100 - x * 100\<bar> \<le> x * 100 / 2 ^ 51"
proof (cases "x = 0")
  case True
  then show ?thesis by (simp add: float_mul_def round_double_zero)
next
  case False
  with assms have x: "0 < x" by simp
  define u :: rat where "u = 1 / 2 ^ 53"
  have u0: "0 < u" and u1: "u \<le> 1" by (simp_all add: u_def)
  have u4: "4 * u = 1 / 2 ^ 51" by (simp add: u_def)
  define q where "q = round_double x"
  have "\<bar>q - x\<bar> \<le> x / 2 ^ 53" unfolding q_def using x by (rule round_double_error)
  then have eq: "\<bar>q - x\<bar> \<le> x * u" by (simp add: u_def)
  have xu: "0 < x * u" using x u0 by simp
  have "x * u \<le> x * 1" using x u1 by (intro mult_left_mono) simp_all
  then have "x * u \<le> x" by simp
  have "x - x * u \<le> q" using eq by linarith
  moreover have "x * u < x"
  proof -
    have "u < 1" by (simp add: u_def)
    then have "x * u < x * 1" using x by (intro mult_strict_left_mono)
    then show ?thesis by simp
  qed
  ultimately have q: "0 < q" by linarith
  have qu: "q \<le> x + x * u" using eq by linarith
  have "0 < q * 100" using q by simp
  then have "\<bar>round_double (q * 100) - q * 100\<bar> \<le> q * 100 / 2 ^ 53"
    by (rule round_double_error)
  then have ed: "\<bar>round_double (q * 100) - q * 100\<bar> \<le> q * 100 * u" by (simp add: u_def)
  have "q * 100 - x * 100 = (q - x) * 100" by (simp add: algebra_simps)
  then have "\<bar>q * 100 - x * 100\<bar> = \<bar>q - x\<bar> * 100"
    by (simp only: abs_mult)
  then have "\<bar>round_double (q * 100) - x * 100\<bar> \<le>
        \<bar>round_double (q * 100) - q * 100\<bar> + \<bar>q - x\<bar> * 100"
    by linarith
  also have "\<dots> \<le> q * 100 * u + x * u * 100"
    using ed eq by (intro add_mono mult_right_mono) simp_all
  also have "\<dots> \<le> (x + x * u) * 100 * u + x * u * 100"
    using qu u0 by (intro add_mono mult_right_mono) simp_all
  also have "\<dots> = x * 100 * (u * (2 + u))" by (simp add: algebra_simps)
  also have "\<dots> \<le> x * 100 * (4 * u)"
  proof (intro mult_left_mono)
    have "u * (2 + u) \<le> u * 4" using u0 u1 by (intro mult_left_mono) simp_all
    then show "u * (2 + u) \<le> 4 * u" by (simp add: mult.commute)
    show "0 \<le> x * 100" using x by simp
  qed
  also have "\<dots> = x * 100 / 2 ^ 51" by (simp only: u4) simp
  finally show ?thesis by (simp add: float_mul_def q_def)
qed

subsection \<open>Density\<close>

text \<open>
  C5. The computation of line 78 never raises: it always yields a density, which is not
  negative; with a word count of 0 it is 0 whatever the number of instances, and no
  division takes place; with a positive word count it is the quotient
  \<open>instances / word_count\<close> times 100, evaluated in floating point, which differs from
  the exact value of that expression by at most the fraction \<open>2^-51\<close> of it.
\<close>

theorem density_guarded:
  "\<exists>d. density_of instances word_count = Inr d \<and> 0 \<le> d \<and>
     (word_count = 0 \<longrightarrow> d = 0) \<and>
     (0 < word_count \<longrightarrow>
        (\<exists>q. true_div instances word_count = Inr q \<and> d = float_mul q 100) \<and>
        \<bar>d - of_nat instances / of_nat word_count * 100\<bar>
          \<le> of_nat instances / of_nat word_count * 100 / 2 ^ 51)"
proof (cases "0 < word_count")
  case True
  define x :: rat where "x = of_nat instances / of_nat word_count"
  have x: "0 \<le> x" by (simp add: x_def)
  have d: "density_of instances word_count = Inr (float_mul (round_double x) 100)"
    using True by (simp add: density_of_total x_def)
  have t: "true_div instances word_count = Inr (round_double x)"
    using True by (simp add: true_div_def x_def)
  have "0 \<le> float_mul (round_double x) 100"
    using x by (intro float_mul_nonneg round_double_nonneg) simp_all
  moreover have "\<bar>float_mul (round_double x) 100 - x * 100\<bar> \<le> x * 100 / 2 ^ 51"
    using x by (rule density_error)
  ultimately have
    "density_of instances word_count = Inr (float_mul (round_double x) 100) \<and>
     0 \<le> float_mul (round_double x) 100 \<and>
     (word_count = 0 \<longrightarrow> float_mul (round_double x) 100 = 0) \<and>
     (0 < word_count \<longrightarrow>
        (\<exists>q. true_div instances word_count = Inr q \<and>
           float_mul (round_double x) 100 = float_mul q 100) \<and>
        \<bar>float_mul (round_double x) 100 - x * 100\<bar> \<le> x * 100 / 2 ^ 51)"
    using True d t by simp
  then show ?thesis unfolding x_def by (rule exI)
next
  case False
  then show ?thesis by (simp add: density_of_total)
qed

theorem density_guarded_witness:
  "(\<exists>d. density_of 2 5 = Inr d \<and> 0 \<le> d \<and> \<bar>d - 40\<bar> \<le> 40 / 2 ^ 51) \<and>
   (\<exists>d. density_of 3 0 = Inr d \<and> d = 0)"
proof -
  have "\<exists>d. density_of 2 5 = Inr d \<and> 0 \<le> d \<and> \<bar>d - 40\<bar> \<le> 40 / 2 ^ 51"
    using density_guarded [of 2 5] by auto
  moreover have "\<exists>d. density_of 3 0 = Inr d \<and> d = 0"
    using density_guarded [of 3 0] by simp
  ultimately show ?thesis by blast
qed

subsection \<open>Empty text\<close>

text \<open>
  C1, as the code has it. For the empty text the guard of lines 64-65 returns before
  the keyword loop: the word count and the sentence count are 0 and the list of keyword
  records is empty, whatever keywords were asked for.
\<close>

theorem analyze_empty_text: "analyze_content [] keywords = Inr (0, 0, [])"
  by (simp add: analyze_content_def)

text \<open>
  C1 as stated asks for one record with 0 instances and density 0.00% per keyword; for
  the empty text and the keyword \<open>anything\<close> this is not what is returned.
\<close>

theorem analyze_empty_text_no_record:
  "analyze_content [] [str ''anything''] \<noteq>
     Inr (0, 0, [\<lparr>Keyword = str ''anything'', Instances = 0, Density = str ''0.00%''\<rparr>])"
  by (simp add: analyze_content_def)

subsection \<open>The worked example\<close>

text \<open>
  C4. \<open>analyze_content("SEO is great. SEO helps.", ["SEO"])\<close> returns 5 words, 2
  sentences and one keyword record with 2 instances and the density 40.00%.
\<close>

theorem analyze_seo_example:
  "analyze_content (str ''SEO is great. SEO helps.'') [str ''SEO''] =
     Inr (5, 2, [\<lparr>Keyword = str ''SEO'', Instances = 2, Density = str ''40.00%''\<rparr>])"
  by code_simp

subsection \<open>Sentence count\<close>

text \<open>
  The matches of \<open>[.!?]+\<close> are the maximal runs of terminators. The set of runs of a
  text is related to that of the rest of the text after one scanning step: a character
  that is no terminator shifts every run by one, a run at the front adds one run.
\<close>

lemma run_skip_iff:
  assumes "\<not> is_terminator c"
  shows "maximal_run (c # cs) i j \<longleftrightarrow> (\<exists>i' j'. i = Suc i' \<and> j = Suc j' \<and> maximal_run cs i' j')"
proof
  assume r: "maximal_run (c # cs) i j"
  then have "is_terminator ((c # cs) ! i)" by (simp add: maximal_run_def)
  with assms have "i \<noteq> 0" by (cases i) auto
  then obtain i' where i: "i = Suc i'" by (cases i) auto
  with r obtain j' where j: "j = Suc j'" by (cases j) (auto simp: maximal_run_def)
  have "maximal_run cs i' j'"
    using r unfolding i j maximal_run_def
    by (auto simp: nth_Cons split: nat.splits)
  with i j show "\<exists>i' j'. i = Suc i' \<and> j = Suc j' \<and> maximal_run cs i' j'" by blast
next
  assume "\<exists>i' j'. i = Suc i' \<and> j = Suc j' \<and> maximal_run cs i' j'"
  then obtain i' j' where i: "i = Suc i'" and j: "j = Suc j'" and r: "maximal_run cs i' j'" by blast
  show "maximal_run (c # cs) i j"
    using r assms unfolding i j maximal_run_def
    by (auto simp: nth_Cons split: nat.splits)
qed


lemma run_take_iff:
  assumes ne: "r \<noteq> []" and all: "\<forall>c \<in> set r. is_terminator c"
    and stop: "rest = [] \<or> \<not> is_terminator (hd rest)"
  shows "maximal_run (r @ rest) i j \<longleftrightarrow>
     (i = 0 \<and> j = length r) \<or>
     (\<exists>i' j'. i = i' + length r \<and> j = j' + length r \<and> maximal_run rest i' j')"
proof
  let ?n = "length r"
  have inr: "\<And>k. k < ?n \<Longrightarrow> is_terminator ((r @ rest) ! k)"
    using all by (simp add: nth_append)
  have at_n: "?n < length (r @ rest) \<Longrightarrow> \<not> is_terminator ((r @ rest) ! ?n)"
    using stop by (cases rest) (auto simp: nth_append)
  assume run: "maximal_run (r @ rest) i j"
  then have ij: "i < j" and jl: "j \<le> length (r @ rest)"
    and mid: "\<And>k. i \<le> k \<Longrightarrow> k < j \<Longrightarrow> is_terminator ((r @ rest) ! k)"
    and start: "i = 0 \<or> \<not> is_terminator ((r @ rest) ! (i - 1))"
    and fin: "j = length (r @ rest) \<or> \<not> is_terminator ((r @ rest) ! j)"
    by (auto simp: maximal_run_def)
  show "(i = 0 \<and> j = ?n) \<or>
     (\<exists>i' j'. i = i' + ?n \<and> j = j' + ?n \<and> maximal_run rest i' j')"
  proof (cases "i < ?n")
    case True
    have i0: "i = 0"
    proof (rule ccontr)
      assume "i \<noteq> 0"
      then have "i - 1 < ?n" using True by simp
      then have "is_terminator ((r @ rest) ! (i - 1))" by (rule inr)
      with start \<open>i \<noteq> 0\<close> show False by simp
    qed
    have "j = ?n"
    proof (rule ccontr)
      assume "j \<noteq> ?n"
      then consider "j < ?n" | "?n < j" by linarith
      then show False
      proof cases
        case 1
        then have "is_terminator ((r @ rest) ! j)" by (rule inr)
        moreover have "j \<noteq> length (r @ rest)" using 1 by simp
        ultimately show False using fin by simp
      next
        case 2
        then have "is_terminator ((r @ rest) ! ?n)" using True mid by simp
        moreover have "?n < length (r @ rest)" using 2 jl by linarith
        ultimately show False using at_n by simp
      qed
    qed
    with i0 show ?thesis by simp
  next
    case False
    define i' where "i' = i - ?n"
    define j' where "j' = j - ?n"
    have i: "i = i' + ?n" and j: "j = j' + ?n" using False ij by (simp_all add: i'_def j'_def)
    have shift: "\<And>k. (r @ rest) ! (k + ?n) = rest ! k" by (simp add: nth_append)
    have "maximal_run rest i' j'"
      unfolding maximal_run_def
    proof (intro conjI ballI)
      show "i' < j'" using ij i j by simp
      show "j' \<le> length rest" using jl j by simp
      show "is_terminator (rest ! k)" if "k \<in> {i'..<j'}" for k
        using mid [of "k + ?n"] that i j shift by simp
      show "i' = 0 \<or> \<not> is_terminator (rest ! (i' - 1))"
      proof (cases "i' = 0")
        case False
        then have "i - 1 = (i' - 1) + ?n" using i by simp
        moreover have "i \<noteq> 0" using False i by simp
        ultimately show ?thesis using start shift [of "i' - 1"] by simp
      qed simp
      show "j' = length rest \<or> \<not> is_terminator (rest ! j')"
        using fin j shift [of j'] by auto
    qed
    with i j show ?thesis by blast
  qed
next
  let ?n = "length r"
  have inr: "\<And>k. k < ?n \<Longrightarrow> is_terminator ((r @ rest) ! k)"
    using all by (simp add: nth_append)
  have shift: "\<And>k. (r @ rest) ! (k + ?n) = rest ! k" by (simp add: nth_append)
  assume "(i = 0 \<and> j = ?n) \<or>
     (\<exists>i' j'. i = i' + ?n \<and> j = j' + ?n \<and> maximal_run rest i' j')"
  then show "maximal_run (r @ rest) i j"
  proof
    assume a: "i = 0 \<and> j = ?n"
    have "?n = length (r @ rest) \<or> \<not> is_terminator ((r @ rest) ! ?n)"
      using stop by (cases rest) (auto simp: nth_append)
    then show ?thesis
      using a ne inr by (auto simp: maximal_run_def)
  next
    assume "\<exists>i' j'. i = i' + ?n \<and> j = j' + ?n \<and> maximal_run rest i' j'"
    then obtain i' j' where i: "i = i' + ?n" and j: "j = j' + ?n"
      and run: "maximal_run rest i' j'" by blast
    from run have ij: "i' < j'" and jl: "j' \<le> length rest"
      and mid: "\<And>k. i' \<le> k \<Longrightarrow> k < j' \<Longrightarrow> is_terminator (rest ! k)"
      and start: "i' = 0 \<or> \<not> is_terminator (rest ! (i' - 1))"
      and fin: "j' = length rest \<or> \<not> is_terminator (rest ! j')"
      by (auto simp: maximal_run_def)
    have "is_terminator (rest ! i')" using mid ij by simp
    moreover have "rest \<noteq> []" using ij jl by auto
    ultimately have "i' \<noteq> 0" using stop by (cases rest; cases i') auto
    show ?thesis
      unfolding maximal_run_def
    proof (intro conjI ballI)
      show "i < j" using ij i j by simp
      show "j \<le> length (r @ rest)" using jl j by simp
      show "is_terminator ((r @ rest) ! k)" if "k \<in> {i..<j}" for k
      proof -
        have "k = (k - ?n) + ?n" using that i by simp
        then have "(r @ rest) ! k = rest ! (k - ?n)" using shift [of "k - ?n"] by simp
        moreover have "i' \<le> k - ?n" "k - ?n < j'" using that i j by auto
        ultimately show ?thesis using mid by simp
      qed
      show "i = 0 \<or> \<not> is_terminator ((r @ rest) ! (i - 1))"
      proof -
        have "i - 1 = (i' - 1) + ?n" using i \<open>i' \<noteq> 0\<close> by simp
        then show ?thesis using start \<open>i' \<noteq> 0\<close> shift [of "i' - 1"] by simp
      qed
      show "j = length (r @ rest) \<or> \<not> is_terminator ((r @ rest) ! j)"
        using fin j shift [of j'] by auto
    qed
  qed
qed

lemma length_maximal_runs: "length (maximal_runs s) = card {(i, j). maximal_run s i j}"
proof -
  have d: "distinct (maximal_runs s)"
    unfolding maximal_runs_def by (intro distinct_filter distinct_product) simp_all
  have "set (maximal_runs s) = {(i, j). maximal_run s i j}"
    unfolding maximal_runs_def by (auto simp: maximal_run_def)
  with d show ?thesis by (metis distinct_card)
qed

lemma finite_runs: "finite {(i, j). maximal_run s i j}"
proof (rule finite_subset)
  show "{(i, j). maximal_run s i j} \<subseteq> {0..<length s} \<times> {0..length s}"
    by (auto simp: maximal_run_def)
qed simp

lemma card_runs_skip:
  assumes "\<not> is_terminator c"
  shows "card {(i, j). maximal_run (c # cs) i j} = card {(i, j). maximal_run cs i j}"
proof -
  have "{(i, j). maximal_run (c # cs) i j} =
        (\<lambda>(i, j). (Suc i, Suc j)) ` {(i, j). maximal_run cs i j}"
    using run_skip_iff [OF assms] by (auto simp: image_iff)
  moreover have "inj_on (\<lambda>(i, j). (Suc i, Suc j)) {(i, j). maximal_run cs i j}"
    by (auto simp: inj_on_def)
  ultimately show ?thesis by (simp add: card_image)
qed

lemma card_runs_take:
  assumes "r \<noteq> []" and "\<forall>c \<in> set r. is_terminator c"
    and "rest = [] \<or> \<not> is_terminator (hd rest)"
  shows "card {(i, j). maximal_run (r @ rest) i j} = Suc (card {(i, j). maximal_run rest i j})"
proof -
  let ?f = "\<lambda>(i, j). (i + length r, j + length r)"
  let ?R = "{(i, j). maximal_run rest i j}"
  have eq: "{(i, j). maximal_run (r @ rest) i j} = insert (0, length r) (?f ` ?R)"
    using run_take_iff [OF assms] by (auto simp: image_iff)
  have inj: "inj_on ?f ?R" by (auto simp: inj_on_def)
  have notin: "(0, length r) \<notin> ?f ` ?R" using assms(1) by auto
  have "finite (?f ` ?R)" using finite_runs by (rule finite_imageI)
  then have "card (insert (0, length r) (?f ` ?R)) = Suc (card (?f ` ?R))"
    using notin by simp
  then show ?thesis using eq inj by (simp add: card_image)
qed

lemma findall_terminators_runs:
  "length (findall_terminators s) = card {(i, j). maximal_run s i j}"
proof (induction s rule: findall_terminators.induct)
  case (1 s)
  show ?case
  proof (cases "s = []")
    case True
    have "{(i, j). maximal_run [] i j} = {}" by (auto simp: maximal_run_def)
    with True show ?thesis by (simp add: findall_terminators.simps)
  next
    case ne: False
    show ?thesis
    proof (cases "is_terminator (hd s)")
      case True
      let ?r = "takeWhile is_terminator s" and ?rest = "dropWhile is_terminator s"
      have s: "s = ?r @ ?rest" by simp
      have r: "?r \<noteq> []" using ne True by (cases s) auto
      have a: "\<forall>c \<in> set ?r. is_terminator c" by (auto dest: set_takeWhileD)
      have b: "?rest = [] \<or> \<not> is_terminator (hd ?rest)"
        by (metis hd_dropWhile)
      have "card {(i, j). maximal_run (?r @ ?rest) i j} = Suc (card {(i, j). maximal_run ?rest i j})"
        using r a b by (rule card_runs_take)
      then have "card {(i, j). maximal_run s i j} = Suc (card {(i, j). maximal_run ?rest i j})"
        by simp
      moreover have "length (findall_terminators s) = Suc (length (findall_terminators ?rest))"
        using ne True by (subst findall_terminators.simps) simp
      ultimately show ?thesis using "1.IH"(1) [OF ne True] by simp
    next
      case False
      obtain c cs where s: "s = c # cs" using ne by (cases s) auto
      have "card {(i, j). maximal_run s i j} = card {(i, j). maximal_run cs i j}"
        using False unfolding s by (simp add: card_runs_skip)
      moreover have "length (findall_terminators s) = length (findall_terminators (tl s))"
        using ne False by (subst findall_terminators.simps) simp
      ultimately show ?thesis using "1.IH"(2) [OF ne False] s by simp
    qed
  qed
qed

text \<open>
  C8. For a non-empty text the sentence count is the number of maximal runs of the
  characters \<open>.\<close>, \<open>!\<close> and \<open>?\<close> in it; so \<open>...\<close> and \<open>?!\<close> count once each.
\<close>

theorem sentence_count_maximal_runs:
  assumes "content \<noteq> []"
  shows "\<exists>wc rs. analyze_content content keywords =
           Inr (wc, length (maximal_runs content), rs)"
proof -
  obtain rs where rs: "keyword_loop content (length (findall_words None content)) keywords [] = Inr rs"
    using keyword_loop_keywords [of content "length (findall_words None content)" "keywords" "[]"]
    by auto
  have "length (findall_terminators content) = length (maximal_runs content)"
    by (simp add: findall_terminators_runs length_maximal_runs)
  with assms rs show ?thesis by (simp add: analyze_content_def Let_def)
qed

theorem sentence_count_maximal_runs_witness:
  "str ''Wait... What?!'' \<noteq> [] \<and>
   (\<exists>wc rs. analyze_content (str ''Wait... What?!'') [] =
      Inr (wc, length (maximal_runs (str ''Wait... What?!'')), rs)) \<and>
   maximal_runs (str ''Wait... What?!'') = [(4, 7), (12, 14)]"
proof -
  have h: "str ''Wait... What?!'' \<noteq> []" by (simp add: str_def)
  have m: "maximal_runs (str ''Wait... What?!'') = [(4, 7), (12, 14)]" by code_simp
  show ?thesis
    using h m sentence_count_maximal_runs [OF h, of "[]"] by blast
qed

subsection \<open>One record per keyword\<close>

text \<open>
  C7. For a non-empty text, \<open>analyze_content\<close> returns one record per keyword given, in
  the order given and without removing duplicates, and the \<open>Keyword\<close> field of each
  record is the keyword as it was entered.
\<close>

theorem analyze_one_record_per_keyword:
  assumes "content \<noteq> []"
  shows "\<exists>wc sc rs. analyze_content content keywords = Inr (wc, sc, rs) \<and>
           map Keyword rs = keywords \<and> length rs = length keywords"
proof -
  obtain rs where rs: "keyword_loop content (length (findall_words None content)) keywords [] = Inr rs"
    and kw: "map Keyword rs = keywords"
    using keyword_loop_keywords [of content "length (findall_words None content)" "keywords" "[]"]
    by auto
  have "length (map Keyword rs) = length keywords" using kw by simp
  then have "length rs = length keywords" by simp
  with assms rs kw show ?thesis by (simp add: analyze_content_def Let_def)
qed

theorem analyze_one_record_per_keyword_witness:
  "str ''SEO tips'' \<noteq> [] \<and>
   (\<exists>wc sc rs. analyze_content (str ''SEO tips'') [str ''seo'', str '' Tips '', str ''seo''] = Inr (wc, sc, rs) \<and>
      map Keyword rs = [str ''seo'', str '' Tips '', str ''seo''] \<and>
      length rs = length [str ''seo'', str '' Tips '', str ''seo''])"
proof -
  have h: "str ''SEO tips'' \<noteq> []" by (simp add: str_def)
  show ?thesis
    using h analyze_one_record_per_keyword [OF h, of "[str ''seo'', str '' Tips '', str ''seo'']"] by blast
qed

subsection \<open>Keywords that are empty after trimming\<close>

text \<open>The record the loop builds for the keyword at position \<open>n\<close>.\<close>

lemma keyword_loop_nth:
  assumes "n < length kws"
  shows "\<exists>rs d. keyword_loop content wc kws results = Inr rs \<and>
           length rs = length results + length kws \<and>
           Keyword (rs ! (length results + n)) = kws ! n \<and>
           Instances (rs ! (length results + n)) =
             str_count (lower content) (lower (strip (kws ! n))) \<and>
           density_of (Instances (rs ! (length results + n))) wc = Inr d \<and>
           Density (rs ! (length results + n)) = format_2f d @ str ''%'' \<and>
           take (length results) rs = results"
  using assms
proof (induction kws arbitrary: results n)
  case Nil
  then show ?case by simp
next
  case (Cons k kws)
  define i where "i = str_count (lower content) (lower (strip k))"
  obtain d where d: "density_of i wc = Inr d" by (simp add: density_of_total)
  define r where "r = \<lparr>Keyword = k, Instances = i, Density = format_2f d @ str ''%''\<rparr>"
  have step: "keyword_loop content wc (k # kws) results = keyword_loop content wc kws (results @ [r])"
    using d by (simp add: i_def r_def)
  show ?case
  proof (cases n)
    case 0
    show ?thesis
    proof (cases kws)
      case Nil
      then show ?thesis using step d 0 by (simp add: r_def i_def)
    next
      case (Cons k' kws')
      then have "0 < length kws" by simp
      from Cons.IH [OF this, of "results @ [r]"]
      obtain rs where rs: "keyword_loop content wc kws (results @ [r]) = Inr rs"
        and len: "length rs = length (results @ [r]) + length kws"
        and tk: "take (length (results @ [r])) rs = results @ [r]"
        by auto
      have "rs ! length results = (take (length (results @ [r])) rs) ! length results"
        by simp
      then have at: "rs ! length results = r" by (simp only: tk) simp
      have "take (length results) rs = take (length results) (take (length (results @ [r])) rs)"
        by (simp add: min_def)
      then have tk': "take (length results) rs = results" by (simp only: tk) simp
      show ?thesis
        using step rs len at tk' d 0 by (simp add: r_def i_def)
    qed
  next
    case (Suc m)
    then have m: "m < length kws" using Cons.prems by simp
    from Cons.IH [OF m, of "results @ [r]"]
    obtain rs d' where rs: "keyword_loop content wc kws (results @ [r]) = Inr rs"
      and len: "length rs = length (results @ [r]) + length kws"
      and kw: "Keyword (rs ! (length (results @ [r]) + m)) = kws ! m"
      and ins: "Instances (rs ! (length (results @ [r]) + m)) =
             str_count (lower content) (lower (strip (kws ! m)))"
      and den: "density_of (Instances (rs ! (length (results @ [r]) + m))) wc = Inr d'"
      and fmt: "Density (rs ! (length (results @ [r]) + m)) = format_2f d' @ str ''%''"
      and tk: "take (length (results @ [r])) rs = results @ [r]"
      by blast
    have "take (length results) rs = take (length results) (take (length (results @ [r])) rs)"
      by (simp add: min_def)
    then have tk': "take (length results) rs = results" by (simp only: tk) simp
    have idx: "length (results @ [r]) + m = length results + n" using Suc by simp
    show ?thesis
      using step rs len kw ins den fmt tk' Suc unfolding idx by auto
  qed
qed

lemma str_count_empty: "str_count s [] = length s + 1"
  by (simp add: str_count.simps)

lemma lower_empty: "lower [] = []"
  by (simp add: lower_def)

lemma length_lower_char: "c \<noteq> U0130 \<Longrightarrow> length (lower_char c) = 1"
  by (cases c) (simp_all add: Let_def)

lemma length_lower: "U0130 \<notin> set s \<Longrightarrow> length (lower s) = length s"
  by (induction s) (auto simp: lower_def length_lower_char)

text \<open>
  C10 as stated fails where lower-casing changes the length of the text. Line 76 counts
  in \<open>content.lower()\<close>, and U+0130 lowers to two code points: for the text of that one
  character and the empty keyword the record reports 3 instances and 300.00%, while the
  length of the text plus one is 2.
\<close>

theorem empty_keyword_dotted_capital_i:
  "analyze_content [U0130] [[]] =
     Inr (1, 0, [\<lparr>Keyword = [], Instances = 3, Density = str ''300.00%''\<rparr>]) \<and>
   (3::nat) \<noteq> length [U0130] + 1"
proof
  show "analyze_content [U0130] [[]] =
     Inr (1, 0, [\<lparr>Keyword = [], Instances = 3, Density = str ''300.00%''\<rparr>])"
    by code_simp
  show "(3::nat) \<noteq> length [U0130] + 1" by simp
qed

text \<open>
  C10, as the code has it. For a non-empty text and a keyword that is empty once
  trimmed, the record of that keyword reports the length of the lower-cased text plus
  one as its instances; that is the length of the text plus one whenever the text has
  no U+0130. Its density is what line 78 computes from that count:
  \<open>instances / word_count * 100\<close> in floating point when there are words. The density
  can exceed 100: for the text \<open>a\<close> and a keyword of one space it is 200.00%.
\<close>

theorem empty_keyword_instances:
  assumes "content \<noteq> []" and "n < length keywords" and "strip (keywords ! n) = []"
  shows "(\<exists>wc sc rs d. analyze_content content keywords = Inr (wc, sc, rs) \<and>
            Instances (rs ! n) = length (lower content) + 1 \<and>
            (U0130 \<notin> set content \<longrightarrow> Instances (rs ! n) = length content + 1) \<and>
            density_of (Instances (rs ! n)) wc = Inr d \<and>
            Density (rs ! n) = format_2f d @ str ''%'' \<and>
            (0 < wc \<longrightarrow>
               d = float_mul (round_double (of_nat (Instances (rs ! n)) / of_nat wc)) 100)) \<and>
         analyze_content (str ''a'') [str '' ''] =
           Inr (1, 0, [\<lparr>Keyword = str '' '', Instances = 2, Density = str ''200.00%''\<rparr>])"
proof
  define wc where "wc = length (findall_words None content)"
  obtain rs d where rs: "keyword_loop content wc keywords [] = Inr rs"
    and ins: "Instances (rs ! n) = str_count (lower content) (lower (strip (keywords ! n)))"
    and den: "density_of (Instances (rs ! n)) wc = Inr d"
    and fmt: "Density (rs ! n) = format_2f d @ str ''%''"
    using keyword_loop_nth [OF assms(2), of content wc "[]"] by auto
  have i: "Instances (rs ! n) = length (lower content) + 1"
    using ins assms(3) by (simp add: lower_empty str_count_empty)
  have p: "U0130 \<notin> set content \<longrightarrow> Instances (rs ! n) = length content + 1"
    using i by (simp add: length_lower)
  have a: "analyze_content content keywords =
             Inr (wc, length (findall_terminators content), rs)"
    using assms(1) rs by (simp add: analyze_content_def Let_def wc_def)
  have "0 < wc \<longrightarrow>
          d = float_mul (round_double (of_nat (Instances (rs ! n)) / of_nat wc)) 100"
    using den unfolding density_of_total by (auto split: if_splits)
  with a i p den fmt
  show "\<exists>wc sc rs d. analyze_content content keywords = Inr (wc, sc, rs) \<and>
            Instances (rs ! n) = length (lower content) + 1 \<and>
            (U0130 \<notin> set content \<longrightarrow> Instances (rs ! n) = length content + 1) \<and>
            density_of (Instances (rs ! n)) wc = Inr d \<and>
            Density (rs ! n) = format_2f d @ str ''%'' \<and>
            (0 < wc \<longrightarrow>
               d = float_mul (round_double (of_nat (Instances (rs ! n)) / of_nat wc)) 100)"
    by blast
next
  show "analyze_content (str ''a'') [str '' ''] =
           Inr (1, 0, [\<lparr>Keyword = str '' '', Instances = 2, Density = str ''200.00%''\<rparr>])"
    by code_simp
qed

theorem empty_keyword_instances_witness:
  "(\<exists>wc sc rs d. analyze_content (str ''a'') [str '' ''] = Inr (wc, sc, rs) \<and>
      Instances (rs ! 0) = length (str ''a'') + 1 \<and>
      density_of (Instances (rs ! 0)) wc = Inr d \<and>
      Density (rs ! 0) = format_2f d @ str ''%'') \<and>
   (\<exists>wc sc rs d. analyze_content [U0130] [[]] = Inr (wc, sc, rs) \<and>
      Instances (rs ! 0) = length (lower [U0130]) + 1 \<and>
      density_of (Instances (rs ! 0)) wc = Inr d \<and>
      Density (rs ! 0) = format_2f d @ str ''%'')"
proof
  have h1: "str ''a'' \<noteq> []" by (simp add: str_def)
  have h2: "(0::nat) < length [str '' '']" by simp
  have h3: "strip ([str '' ''] ! 0) = []" by code_simp
  have h4: "U0130 \<notin> set (str ''a'')" by (simp add: str_def)
  show "\<exists>wc sc rs d. analyze_content (str ''a'') [str '' ''] = Inr (wc, sc, rs) \<and>
      Instances (rs ! 0) = length (str ''a'') + 1 \<and>
      density_of (Instances (rs ! 0)) wc = Inr d \<and>
      Density (rs ! 0) = format_2f d @ str ''%''"
    using h4 empty_keyword_instances [OF h1 h2 h3] by blast
next
  have h1: "[U0130] \<noteq> []" by simp
  have h2: "(0::nat) < length [[] :: pystr]" by simp
  have h3: "strip ([[]] ! 0) = []" by code_simp
  show "\<exists>wc sc rs d. analyze_content [U0130] [[]] = Inr (wc, sc, rs) \<and>
      Instances (rs ! 0) = length (lower [U0130]) + 1 \<and>
      density_of (Instances (rs ! 0)) wc = Inr d \<and>
      Density (rs ! 0) = format_2f d @ str ''%''"
    using empty_keyword_instances [OF h1 h2 h3] by blast
qed

subsection \<open>Determinism and the objects of the caller\<close>

text \<open>
  The loop on a heap: when the list of rows is another object than \<open>keywords\<close>, a run
  of the loop changes no object but the list of rows, and it raises or fills that list
  as \<open>keyword_loop\<close> says; and from every such heap the loop has a run.
\<close>

lemma exec_loop_sound:
  assumes "exec_loop content wc k r i h h' raised"
    and "r \<noteq> k" and "h k = Some (map Str keywords)" and "h r = Some (map Row results)"
  shows "(\<forall>a. a \<noteq> r \<longrightarrow> h' a = h a) \<and>
         (case keyword_loop content wc (drop i keywords) results of
            Inl e \<Rightarrow> raised = Some e
          | Inr rs \<Rightarrow> raised = None \<and> h' r = Some (map Row rs))"
  using assms
proof (induction arbitrary: results rule: exec_loop.induct)
  case (loop_end h ks i)
  then have "length keywords \<le> i" by auto
  with loop_end show ?case by simp
next
  case (loop_no_strip h ks i d)
  then have "ks = map Str keywords" by simp
  with loop_no_strip show ?case by simp
next
  case (loop_raise h ks i keyword e)
  then have ks: "ks = map Str keywords" by simp
  with loop_raise have i: "i < length keywords" and kw: "keywords ! i = keyword" by auto
  have "drop i keywords = keyword # drop (Suc i) keywords"
    using i kw by (simp flip: Cons_nth_drop_Suc)
  with loop_raise show ?case by simp
next
  case (loop_next h ks i keyword instances density rs h' raised)
  let ?row = "\<lparr>Keyword = keyword, Instances = instances,
                Density = format_2f density @ str ''%''\<rparr>"
  let ?h = "h(r \<mapsto> rs @ [Row ?row])"
  from loop_next have ks: "ks = map Str keywords" by simp
  with loop_next have i: "i < length keywords" and kw: "keywords ! i = keyword" by auto
  have d: "drop i keywords = keyword # drop (Suc i) keywords"
    using i kw by (simp flip: Cons_nth_drop_Suc)
  have rs: "rs = map Row results" using loop_next by simp
  have "?h k = Some (map Str keywords)" using loop_next by simp
  moreover have "?h r = Some (map Row (results @ [?row]))" using rs by simp
  ultimately have ih: "(\<forall>a. a \<noteq> r \<longrightarrow> h' a = ?h a) \<and>
         (case keyword_loop content wc (drop (Suc i) keywords) (results @ [?row]) of
            Inl e \<Rightarrow> raised = Some e
          | Inr rs \<Rightarrow> raised = None \<and> h' r = Some (map Row rs))"
    using loop_next.IH [of "results @ [?row]"] loop_next.prems(1) by blast
  have "keyword_loop content wc (drop i keywords) results =
        keyword_loop content wc (drop (Suc i) keywords) (results @ [?row])"
    using loop_next by (simp add: d)
  with ih show ?case by simp
qed

lemma exec_loop_complete:
  assumes "r \<noteq> k" and "h k = Some (map Str keywords)" and "h r = Some rs"
  shows "\<exists>h' raised. exec_loop content wc k r i h h' raised"
  using assms
proof (induction "length keywords - i" arbitrary: i h rs)
  case 0
  then have "length (map Str keywords) \<le> i" by simp
  with "0.prems"(2) have "exec_loop content wc k r i h h None" by (rule loop_end)
  then show ?case by blast
next
  case (Suc n)
  then have i: "i < length (map Str keywords)" by simp
  have at: "map Str keywords ! i = Str (keywords ! i)" using i by simp
  define instances where
    "instances = str_count (lower content) (lower (strip (keywords ! i)))"
  obtain density where den: "density_of instances wc = Inr density"
    by (simp add: density_of_total)
  define row where "row = \<lparr>Keyword = keywords ! i, Instances = instances,
                Density = format_2f density @ str ''%''\<rparr>"
  define h2 where "h2 = h(r \<mapsto> rs @ [Row row])"
  have n: "n = length keywords - Suc i" using Suc.hyps(2) by simp
  have hk: "h2 k = Some (map Str keywords)" using Suc.prems(1,2) by (simp add: h2_def)
  have hr: "h2 r = Some (rs @ [Row row])" by (simp add: h2_def)
  have "\<exists>h' raised. exec_loop content wc k r (Suc i) h2 h' raised"
    using n Suc.prems(1) hk hr by (rule Suc.hyps(1))
  then obtain h' raised where e: "exec_loop content wc k r (Suc i) h2 h' raised" by blast
  have "exec_loop content wc k r i h h' raised"
    using Suc.prems(2) i at instances_def den Suc.prems(3) e [unfolded h2_def row_def]
    by (rule loop_next)
  then show ?case by blast
qed


lemma exec_analyze_sound:
  assumes "exec_analyze content k r h h' out" and "h k = Some (map Str keywords)"
  shows "(\<forall>a. a \<noteq> r \<longrightarrow> h' a = h a) \<and>
         (\<exists>wc sc rs. analyze_content content keywords = Inr (wc, sc, rs) \<and>
            out = Inr (wc, sc, r) \<and> h' r = Some (map Row rs))"
  using assms(1)
proof (cases rule: exec_analyze.cases)
  case exec_empty
  then show ?thesis by (simp add: analyze_content_def)
next
  case (exec_raise e)
  let ?wc = "length (findall_words None content)"
  let ?h = "h(r \<mapsto> [])"
  have rk: "r \<noteq> k" using exec_raise(3) assms(2) by auto
  have hk: "?h k = Some (map Str keywords)" using rk assms(2) by simp
  have hr: "?h r = Some (map Row [])" by simp
  obtain rs where rs: "keyword_loop content ?wc keywords [] = Inr rs"
    using keyword_loop_keywords [of content ?wc "keywords" "[]"] by blast
  have "(\<forall>a. a \<noteq> r \<longrightarrow> h' a = ?h a) \<and>
         (case keyword_loop content ?wc (drop 0 keywords) [] of
            Inl e' \<Rightarrow> Some e = Some e'
          | Inr rs \<Rightarrow> Some e = None \<and> h' r = Some (map Row rs))"
    by (rule exec_loop_sound [OF exec_raise(4) rk hk hr])
  with rs show ?thesis by simp
next
  case exec_return
  let ?wc = "length (findall_words None content)"
  let ?h = "h(r \<mapsto> [])"
  have rk: "r \<noteq> k" using exec_return(3) assms(2) by auto
  have hk: "?h k = Some (map Str keywords)" using rk assms(2) by simp
  have hr: "?h r = Some (map Row [])" by simp
  obtain rs where rs: "keyword_loop content ?wc keywords [] = Inr rs"
    using keyword_loop_keywords [of content ?wc "keywords" "[]"] by blast
  note snd = exec_loop_sound [OF exec_return(4) rk hk hr]
  have frame: "\<forall>a. a \<noteq> r \<longrightarrow> h' a = h a" using snd by simp
  have res: "h' r = Some (map Row rs)" using snd rs by simp
  have "analyze_content content keywords =
          Inr (?wc, length (findall_terminators content), rs)"
    using exec_return(2) rs by (simp add: analyze_content_def Let_def)
  with frame res exec_return(1) show ?thesis by blast
qed

lemma exec_analyze_complete:
  assumes "h k = Some (map Str keywords)" and "h r = None"
  shows "\<exists>h' out. exec_analyze content k r h h' out"
proof (cases "content = []")
  case True
  then have "exec_analyze content k r h (h(r \<mapsto> [])) (Inr (0, 0, r))"
    using assms(2) by (rule exec_empty)
  then show ?thesis by blast
next
  case False
  let ?wc = "length (findall_words None content)"
  let ?h = "h(r \<mapsto> [])"
  have rk: "r \<noteq> k" using assms by auto
  have hk: "?h k = Some (map Str keywords)" using rk assms(1) by simp
  have hr: "?h r = Some []" by simp
  obtain h' raised where e: "exec_loop content ?wc k r 0 ?h h' raised"
    using exec_loop_complete [OF rk hk hr] by blast
  show ?thesis
  proof (cases raised)
    case None
    with e have "exec_loop content ?wc k r 0 ?h h' None" by simp
    with False assms(2) have "exec_analyze content k r h h'
       (Inr (?wc, length (findall_terminators content), r))"
      by (rule exec_return)
    then show ?thesis by blast
  next
    case (Some x)
    with e have "exec_loop content ?wc k r 0 ?h h' (Some x)" by simp
    with False assms(2) have "exec_analyze content k r h h' (Inl x)"
      by (rule exec_raise)
    then show ?thesis by blast
  qed
qed

text \<open>
  That the arguments are left alone is not built into the loop. Were the list of rows the
  object \<open>keywords\<close> itself, the first round would append a row to \<open>keywords\<close>, and the
  second would meet that row where it expects a string.
\<close>

lemma aliased_rows_change_keywords:
  "exec_loop (str ''a.'') 1 0 0 0
     [0 \<mapsto> [Str (str ''a'')]]
     [0 \<mapsto> [Str (str ''a''),
           Row \<lparr>Keyword = str ''a'', Instances = 1, Density = str ''100.00%''\<rparr>]]
     (Some AttributeError)"
proof -
  let ?row = "\<lparr>Keyword = str ''a'', Instances = 1, Density = format_2f 100 @ str ''%''\<rparr>"
  let ?h = "[0 \<mapsto> [Str (str ''a'')]] :: heap"
  let ?h' = "?h(0 \<mapsto> [Str (str ''a'')] @ [Row ?row])"
  have i: "(1::nat) = str_count (lower (str ''a.'')) (lower (strip (str ''a'')))" by code_simp
  have d: "density_of 1 1 = Inr 100" by code_simp
  have f: "format_2f 100 @ str ''%'' = str ''100.00%''" by code_simp
  have last: "exec_loop (str ''a.'') 1 0 0 (Suc 0) ?h' ?h' (Some AttributeError)"
  proof (rule loop_no_strip [where ks = "[Str (str ''a''), Row ?row]" and d = ?row])
    show "?h' 0 = Some [Str (str ''a''), Row ?row]" by simp
    show "Suc 0 < length [Str (str ''a''), Row ?row]" by simp
    show "[Str (str ''a''), Row ?row] ! Suc 0 = Row ?row" by simp
  qed
  have "exec_loop (str ''a.'') 1 0 0 0 ?h ?h' (Some AttributeError)"
  proof (rule loop_next [where ks = "[Str (str ''a'')]" and keyword = "str ''a''"
          and instances = 1 and density = 100 and rs = "[Str (str ''a'')]"])
    show "?h 0 = Some [Str (str ''a'')]" by simp
    show "0 < length [Str (str ''a'')]" by simp
    show "[Str (str ''a'')] ! 0 = Str (str ''a'')" by simp
    show "1 = str_count (lower (str ''a.'')) (lower (strip (str ''a'')))" by (rule i)
    show "density_of 1 1 = Inr 100" by (rule d)
    show "?h 0 = Some [Str (str ''a'')]" by simp
    show "exec_loop (str ''a.'') 1 0 0 (Suc 0) ?h' ?h' (Some AttributeError)" by (rule last)
  qed
  moreover have "?h' = [0 \<mapsto> [Str (str ''a''),
           Row \<lparr>Keyword = str ''a'', Instances = 1, Density = str ''100.00%''\<rparr>]]"
    by (simp add: f)
  ultimately show ?thesis by simp
qed

text \<open>
  C9. Take two calls with the same text and with keyword lists of the same elements, in
  any two heaps, the new list of each call at any free address. Each call has an
  execution. Any two executions return the same word count and sentence count, and the
  lists they return hold the same rows, those that \<open>analyze_content\<close> gives. Each
  execution leaves every object that was there before the call as it was, the list
  \<open>keywords\<close> among them: it writes to the new list only.
\<close>

theorem analyze_deterministic:
  assumes "h1 k1 = Some (map Str keywords)" and "h2 k2 = Some (map Str keywords)"
  shows "(h1 r1 = None \<longrightarrow> (\<exists>h1' out1. exec_analyze content k1 r1 h1 h1' out1)) \<and>
         (\<forall>h1' out1 h2' out2.
            exec_analyze content k1 r1 h1 h1' out1 \<and>
            exec_analyze content k2 r2 h2 h2' out2 \<longrightarrow>
              (\<exists>wc sc rs. analyze_content content keywords = Inr (wc, sc, rs) \<and>
                 out1 = Inr (wc, sc, r1) \<and> out2 = Inr (wc, sc, r2) \<and>
                 h1' r1 = Some (map Row rs) \<and> h2' r2 = Some (map Row rs)) \<and>
              (\<forall>a. a \<noteq> r1 \<longrightarrow> h1' a = h1 a) \<and> h1' k1 = h1 k1 \<and>
              (\<forall>a. a \<noteq> r2 \<longrightarrow> h2' a = h2 a) \<and> h2' k2 = h2 k2)"
proof (intro conjI)
  show "h1 r1 = None \<longrightarrow> (\<exists>h1' out1. exec_analyze content k1 r1 h1 h1' out1)"
    using assms(1) by (blast intro: exec_analyze_complete)
next
  show "\<forall>h1' out1 h2' out2.
            exec_analyze content k1 r1 h1 h1' out1 \<and>
            exec_analyze content k2 r2 h2 h2' out2 \<longrightarrow>
              (\<exists>wc sc rs. analyze_content content keywords = Inr (wc, sc, rs) \<and>
                 out1 = Inr (wc, sc, r1) \<and> out2 = Inr (wc, sc, r2) \<and>
                 h1' r1 = Some (map Row rs) \<and> h2' r2 = Some (map Row rs)) \<and>
              (\<forall>a. a \<noteq> r1 \<longrightarrow> h1' a = h1 a) \<and> h1' k1 = h1 k1 \<and>
              (\<forall>a. a \<noteq> r2 \<longrightarrow> h2' a = h2 a) \<and> h2' k2 = h2 k2"
  proof (intro allI impI)
    fix h1' out1 h2' out2
    assume e: "exec_analyze content k1 r1 h1 h1' out1 \<and>
               exec_analyze content k2 r2 h2 h2' out2"
    then have e1: "exec_analyze content k1 r1 h1 h1' out1"
      and e2: "exec_analyze content k2 r2 h2 h2' out2" by simp_all
    from exec_analyze_sound [OF e1 assms(1)]
    obtain wc sc rs where f1: "\<forall>a. a \<noteq> r1 \<longrightarrow> h1' a = h1 a"
      and a1: "analyze_content content keywords = Inr (wc, sc, rs)"
      and o1: "out1 = Inr (wc, sc, r1)" and l1: "h1' r1 = Some (map Row rs)" by blast
    from exec_analyze_sound [OF e2 assms(2)]
    obtain wc' sc' rs' where f2: "\<forall>a. a \<noteq> r2 \<longrightarrow> h2' a = h2 a"
      and a2: "analyze_content content keywords = Inr (wc', sc', rs')"
      and o2: "out2 = Inr (wc', sc', r2)" and l2: "h2' r2 = Some (map Row rs')" by blast
    from a1 a2 have same: "wc' = wc" "sc' = sc" "rs' = rs" by simp_all
    have "h1 r1 = None" using e1 by (cases rule: exec_analyze.cases) simp_all
    then have n1: "k1 \<noteq> r1" using assms(1) by auto
    have "h2 r2 = None" using e2 by (cases rule: exec_analyze.cases) simp_all
    then have n2: "k2 \<noteq> r2" using assms(2) by auto
    have r: "\<exists>wc sc rs. analyze_content content keywords = Inr (wc, sc, rs) \<and>
                 out1 = Inr (wc, sc, r1) \<and> out2 = Inr (wc, sc, r2) \<and>
                 h1' r1 = Some (map Row rs) \<and> h2' r2 = Some (map Row rs)"
      using a1 o1 o2 l1 l2 same by blast
    have u1: "h1' k1 = h1 k1" using f1 n1 by simp
    have u2: "h2' k2 = h2 k2" using f2 n2 by simp
    from r f1 u1 f2 u2
    show "(\<exists>wc sc rs. analyze_content content keywords = Inr (wc, sc, rs) \<and>
                 out1 = Inr (wc, sc, r1) \<and> out2 = Inr (wc, sc, r2) \<and>
                 h1' r1 = Some (map Row rs) \<and> h2' r2 = Some (map Row rs)) \<and>
              (\<forall>a. a \<noteq> r1 \<longrightarrow> h1' a = h1 a) \<and> h1' k1 = h1 k1 \<and>
              (\<forall>a. a \<noteq> r2 \<longrightarrow> h2' a = h2 a) \<and> h2' k2 = h2 k2"
      by (intro conjI)
  qed
qed

theorem analyze_deterministic_witness:
  "\<exists>h1' out1 h2' out2.
     exec_analyze (str ''a.'') 0 1 [0 \<mapsto> [Str (str ''a'')]] h1' out1 \<and>
     exec_analyze (str ''a.'') 3 0 [3 \<mapsto> [Str (str ''a'')], 7 \<mapsto> []] h2' out2 \<and>
     out1 = Inr (1, 1, 1) \<and> out2 = Inr (1, 1, 0) \<and>
     h1' 1 = Some [Row \<lparr>Keyword = str ''a'', Instances = 1, Density = str ''100.00%''\<rparr>] \<and>
     h2' 0 = Some [Row \<lparr>Keyword = str ''a'', Instances = 1, Density = str ''100.00%''\<rparr>] \<and>
     h1' 0 = Some [Str (str ''a'')] \<and> h2' 3 = Some [Str (str ''a'')]"
proof -
  let ?c = "str ''a.''"
  let ?h1 = "[0 \<mapsto> [Str (str ''a'')]] :: heap"
  let ?h2 = "[3 \<mapsto> [Str (str ''a'')], 7 \<mapsto> []] :: heap"
  have k1: "?h1 0 = Some (map Str [str ''a''])" by simp
  have k2: "?h2 3 = Some (map Str [str ''a''])" by simp
  have f1: "?h1 1 = None" by simp
  have f2: "?h2 0 = None" by simp
  have v: "analyze_content ?c [str ''a''] =
          Inr (1, 1, [\<lparr>Keyword = str ''a'', Instances = 1, Density = str ''100.00%''\<rparr>])"
    by code_simp
  obtain h1' out1 where e1: "exec_analyze ?c 0 1 ?h1 h1' out1"
    using analyze_deterministic [of ?h1 0 "[str ''a'']" ?h2 3 1 ?c 0, OF k1 k2] f1 by blast
  obtain h2' out2 where e2: "exec_analyze ?c 3 0 ?h2 h2' out2"
    using analyze_deterministic [of ?h2 3 "[str ''a'']" ?h1 0 0 ?c 1, OF k2 k1] f2 by blast
  have "(\<exists>wc sc rs. analyze_content ?c [str ''a''] = Inr (wc, sc, rs) \<and>
                 out1 = Inr (wc, sc, 1) \<and> out2 = Inr (wc, sc, 0) \<and>
                 h1' 1 = Some (map Row rs) \<and> h2' 0 = Some (map Row rs)) \<and>
        h1' 0 = ?h1 0 \<and> h2' 3 = ?h2 3"
    using analyze_deterministic [of ?h1 0 "[str ''a'']" ?h2 3 1 ?c 0, OF k1 k2] e1 e2 by blast
  then have "out1 = Inr (1, 1, 1) \<and> out2 = Inr (1, 1, 0) \<and>
     h1' 1 = Some [Row \<lparr>Keyword = str ''a'', Instances = 1, Density = str ''100.00%''\<rparr>] \<and>
     h2' 0 = Some [Row \<lparr>Keyword = str ''a'', Instances = 1, Density = str ''100.00%''\<rparr>] \<and>
     h1' 0 = Some [Str (str ''a'')] \<and> h2' 3 = Some [Str (str ''a'')]"
    unfolding v by auto
  with e1 e2 show ?thesis by blast
qed

section \<open>Properties of the content extractor\<close>

subsection \<open>No exception leaves the extractor\<close>

lemma collect_visible_total: "\<exists>content'. collect_visible ts content = Inr content'"
proof (induction ts arbitrary: content)
  case Nil
  show ?case by simp
next
  case (Cons t ts)
  obtain pn pa s where t: "t = (pn, pa, s)" by (cases t) auto
  show ?case
    using Cons.IH by (auto simp: t has_attr_def get_item_def split: option.splits)
qed

lemma extract_content_total: "\<exists>s. extract_content soup = Inr s"
proof (cases "select_root (decompose_all excluded_names soup)")
  case None
  then show ?thesis by (simp add: extract_content_def)
next
  case (Some t)
  show ?thesis
  proof (cases t)
    case (NavigableString s)
    with Some show ?thesis by (simp add: extract_content_def)
  next
    case (Tag n a cs)
    obtain content where "collect_visible (find_all_text n a cs) [] = Inr content"
      using collect_visible_total by blast
    with Some Tag show ?thesis by (simp add: extract_content_def)
  qed
qed

text \<open>
  C6. \<open>get_clean_content\<close> always returns a string and never an exception: on every
  outcome of fetching and parsing; the selection and collection steps on a parsed page
  raise nothing themselves (the lookup \<open>parent['style']\<close> is only reached when the
  attribute is there); and when fetching or parsing raised, the result is the empty
  string.
\<close>

theorem get_clean_content_never_raises:
  "(\<exists>s. get_clean_content page = Inr s) \<and>
   (\<exists>s. extract_content soup = Inr s) \<and>
   get_clean_content (Inl e) = Inr []"
proof -
  have "\<exists>s. get_clean_content page = Inr s"
    by (simp add: get_clean_content_def split: sum.splits)
  moreover have "get_clean_content (Inl e) = Inr []"
    by (simp add: get_clean_content_def)
  ultimately show ?thesis using extract_content_total by blast
qed

subsection \<open>Selection of the content root\<close>

lemma find_append_case:
  "List.find P (xs @ ys) = (case List.find P xs of Some x \<Rightarrow> Some x | None \<Rightarrow> List.find P ys)"
  by (induction xs) auto

lemma find_tag_document_order: "find_tag p doc = List.find (accepts p) (tags_of doc)"
  by (induction p doc rule: find_tag.induct) (auto simp: find_append_case split: option.splits)

lemma starts_with_prefix: "starts_with s sub \<longleftrightarrow> prefix sub s"
  by (induction s sub rule: starts_with.induct) auto

lemma contains_sublist: "contains s sub \<longleftrightarrow> sublist sub s"
  by (induction s) (auto simp: starts_with_prefix sublist_Cons_right)

lemma sublist_join: "v \<in> set vs \<Longrightarrow> sublist v (join sep vs)"
proof (induction sep vs rule: join.induct)
  case (3 sep p q ps)
  show ?case
  proof (cases "v = p")
    case True
    then show ?thesis by simp
  next
    case False
    with 3 have "sublist v (join sep (q # ps))" by simp
    then obtain xs ys where "join sep (q # ps) = xs @ v @ ys" by (auto simp: sublist_def)
    then have "join sep (p # q # ps) = (p @ sep @ xs) @ v @ ys" by simp
    then show ?thesis unfolding sublist_def by blast
  qed
qed auto

lemma sublist_lower: "sublist v s \<Longrightarrow> sublist (lower v) (lower s)"
proof -
  assume "sublist v s"
  then obtain ps ss where "s = ps @ v @ ss" by (auto simp: sublist_def)
  then have "lower s = lower ps @ lower v @ lower ss" by (simp add: lower_def)
  then show ?thesis unfolding sublist_def by blast
qed

lemma class_test_sublist:
  "class_test (Some x) \<longleftrightarrow>
     sublist (str ''content'') (lower x) \<or> sublist (str ''main'') (lower x) \<or> sublist (str ''article'') (lower x)"
  by (cases x) (auto simp: contains_sublist lower_def str_def)

lemma matches_class_test:
  "matches (get_attr a (str ''class'')) class_test \<longleftrightarrow>
     class_contains_ci a (str ''content'') \<or> class_contains_ci a (str ''main'') \<or>
     class_contains_ci a (str ''article'')"
proof (cases "get_attr a (str ''class'')")
  case None
  then show ?thesis by (simp add: class_contains_ci_def)
next
  case (Some v)
  show ?thesis
  proof (cases v)
    case (AttrStr x)
    with Some show ?thesis
      by (simp add: class_contains_ci_def class_test_sublist del: class_test.simps)
  next
    case (AttrList vs)
    have up: "class_test (Some (join (str '' '') vs))" if "x \<in> set vs" and "class_test (Some x)" for x
    proof -
      have "sublist (lower x) (lower (join (str '' '') vs))"
        using that(1) by (intro sublist_lower sublist_join)
      then show ?thesis
        using that(2) unfolding class_test_sublist by (meson sublist_order.order_trans)
    qed
    have "matches (Some (AttrList vs)) class_test \<longleftrightarrow> class_test (Some (join (str '' '') vs))"
      using up by (auto simp: list_ex_iff simp del: class_test.simps)
    with Some AttrList show ?thesis
      by (simp add: class_contains_ci_def class_test_sublist del: class_test.simps)
  qed
qed

lemma select_root_content_root: "select_root doc = content_root doc"
proof -
  have m: "accepts (\<lambda>n a. n = str ''main'') = tag_named (str ''main'')"
  proof
    fix t show "accepts (\<lambda>n a. n = str ''main'') t = tag_named (str ''main'') t" by (cases t) auto
  qed
  have ar: "accepts (\<lambda>n a. n = str ''article'') = tag_named (str ''article'')"
  proof
    fix t show "accepts (\<lambda>n a. n = str ''article'') t = tag_named (str ''article'') t" by (cases t) auto
  qed
  have d: "accepts (\<lambda>n a. n = str ''div'' \<and> matches (get_attr a (str ''class'')) class_test) = content_div"
  proof
    fix t
    show "accepts (\<lambda>n a. n = str ''div'' \<and> matches (get_attr a (str ''class'')) class_test) t = content_div t"
      by (cases t) (simp_all add: matches_class_test)
  qed
  show ?thesis
    unfolding select_root_def content_root_def find_tag_document_order m ar d ..
qed

text \<open>
  C3. On the page as it is after the removal of lines 42-43, the root that line 46
  selects is the first \<open>main\<close> tag in document order; if there is none, the first
  \<open>article\<close>; if there is none either, the first \<open>div\<close> whose class attribute contains
  \<open>content\<close>, \<open>main\<close> or \<open>article\<close> in any mix of cases. When none of the three exists,
  \<open>get_clean_content\<close> returns the empty string and raises nothing.
\<close>

theorem select_root_priority:
  "select_root doc = content_root doc \<and>
   (content_root (decompose_all excluded_names soup) = None \<longrightarrow>
      get_clean_content (Inr soup) = Inr [])"
proof -
  have "get_clean_content (Inr soup) = Inr []"
    if "content_root (decompose_all excluded_names soup) = None"
    using that
    by (simp add: get_clean_content_def extract_content_def select_root_content_root)
  then show ?thesis using select_root_content_root by blast
qed

theorem select_root_priority_witness:
  "select_root
     [Tag (str ''div'') [(str ''class'', AttrList [str ''page'', str ''Main-Body''])]
        [Tag (str ''article'') [] [NavigableString (str ''A'')]],
      Tag (str ''main'') [] [NavigableString (str ''M'')]]
   = Some (Tag (str ''main'') [] [NavigableString (str ''M'')]) \<and>
   content_root (decompose_all excluded_names [Tag (str ''p'') [] [NavigableString (str ''text'')]]) = None \<and>
   get_clean_content (Inr [Tag (str ''p'') [] [NavigableString (str ''text'')]]) = Inr []"
proof -
  let ?doc = "[Tag (str ''div'') [(str ''class'', AttrList [str ''page'', str ''Main-Body''])]
        [Tag (str ''article'') [] [NavigableString (str ''A'')]],
      Tag (str ''main'') [] [NavigableString (str ''M'')]]"
  let ?soup = "[Tag (str ''p'') [] [NavigableString (str ''text'')]]"
  have r: "content_root ?doc = Some (Tag (str ''main'') [] [NavigableString (str ''M'')])"
    by code_simp
  have n: "content_root (decompose_all excluded_names ?soup) = None"
    by code_simp
  show ?thesis
    using r n select_root_priority [of ?doc ?soup] by simp
qed

subsection \<open>Elements with a footer or navbar class\<close>

text \<open>
  C2 at a concrete page. Line 42 passes \<open>div.footer\<close> and \<open>div.navbar\<close> to \<open>find_all\<close>,
  which compares them with tag names, so no element is selected by its class. In
  \<open><main><p>Body</p><div class="footer">Copyright</div></main>\<close> the text of the
  \<open>div\<close> of class \<open>footer\<close> is part of what is extracted.
\<close>

theorem footer_class_text_kept:
  "get_clean_content
     (Inr [Tag (str ''main'') []
            [Tag (str ''p'') [] [NavigableString (str ''Body'')],
             Tag (str ''div'') [(str ''class'', AttrList [str ''footer''])] [NavigableString (str ''Copyright'')]]])
   = Inr (str ''Body Copyright'')"
  by code_simp

end
